theory Spec2Isabelle
  imports Main "HOL-Library.Sublist" "HOL-Library.Monad_Syntax"
begin

section \<open>Data model of the commit graph (graph.go)\<close>

text \<open>
  \<^verbatim>\<open>type PipeKind uint8\<close> with the constants \<^verbatim>\<open>TERMINATES, STARTS, CONTINUES\<close>
  numbered by \<^verbatim>\<open>iota\<close>. \<open>kindOrd\<close> is the numeric value the sort comparator compares.
\<close>

datatype PipeKind = TERMINATES | STARTS | CONTINUES

fun kindOrd :: "PipeKind \<Rightarrow> nat" where
  "kindOrd TERMINATES = 0"
| "kindOrd STARTS = 1"
| "kindOrd CONTINUES = 2"

text \<open>
  \<^verbatim>\<open>type Pipe struct\<close>. Lanes are Go \<^verbatim>\<open>int\<close>s; they are modelled as unbounded integers
  (a lane beyond \<open>2^63\<close> would need that many pipes in one row). The type of styles
  (\<^verbatim>\<open>style.TextStyle\<close>) belongs to another package and is a type parameter.
\<close>

record 's Pipe =
  fromPos :: int
  toPos :: int
  fromHash :: string
  toHash :: string
  kind :: PipeKind
  style :: 's

text \<open>
  The two fields of \<^verbatim>\<open>models.Commit\<close> that the graph reads. Commits and pipes are
  held by pointer in the source; the lists here hold the values (no nil entries).
\<close>

record Commit =
  Hash :: string
  Parents :: "string list"

text \<open>
  Modelled from the spec: \<^verbatim>\<open>models.Commit.IsMerge\<close> is declared outside graph.go;
  the spec gives it as "merge flag (parent count > 1)".
\<close>

definition IsMerge :: "Commit \<Rightarrow> bool" where
  "IsMerge commit = (length (Parents commit) > 1)"

text \<open>
  Modelled from the spec: \<^verbatim>\<open>models.EmptyTreeCommitHash\<close> is declared outside graph.go;
  the spec calls it the sentinel hash, a reserved marker that stands for "no parent".
  The value is git's hash of the empty tree.
\<close>

definition EmptyTreeCommitHash :: string where
  "EmptyTreeCommitHash = ''4b825dc642cb6eb9a060e54bf8d69288fbee4904''"

definition left :: "'s Pipe \<Rightarrow> int" where
  "left self = min (fromPos self) (toPos self)"

definition right :: "'s Pipe \<Rightarrow> int" where
  "right self = max (fromPos self) (toPos self)"

section \<open>Hash comparison\<close>

text \<open>\<^verbatim>\<open>a[:length] == b[:length]\<close> on byte strings, after the test for the empty string.\<close>

definition equalHashes :: "string \<Rightarrow> string \<Rightarrow> bool" where
  "equalHashes a b =
     (if a = [] \<or> b = [] then False
      else (let len = min (length a) (length b)
            in take len a = take len b))"

definition ContainsCommitHash :: "'s Pipe list \<Rightarrow> string \<Rightarrow> bool" where
  "ContainsCommitHash pipes hash = list_ex (\<lambda>pipe. equalHashes (fromHash pipe) hash) pipes"

section \<open>Computing the next row of pipes\<close>

text \<open>The first loop of \<^verbatim>\<open>getNextPipes\<close>: the largest destination lane, starting from 0.\<close>

definition maxToPos :: "'s Pipe list \<Rightarrow> int" where
  "maxToPos prevPipes =
     foldl (\<lambda>maxPos pipe. if toPos pipe > maxPos then toPos pipe else maxPos) 0 prevPipes"

text \<open>
  The loop that places the commit: the lane of the first current pipe that points at
  the commit (the \<^verbatim>\<open>break\<close>), or the initial value when there is none.
\<close>

fun findPos :: "int \<Rightarrow> string \<Rightarrow> 's Pipe list \<Rightarrow> int" where
  "findPos pos hash [] = pos"
| "findPos pos hash (pipe # pipes) =
     (if equalHashes (toHash pipe) hash then toPos pipe else findPos pos hash pipes)"

text \<open>
  The mutable locals of \<^verbatim>\<open>getNextPipes\<close> that its closures share. The two
  \<^verbatim>\<open>set.Set[int]\<close> values are only ever added to and asked for membership, so each is
  kept as the list of the lanes added.
\<close>

record 's Lanes =
  newPipes :: "'s Pipe list"
  takenSpots :: "int list"
  traversedSpots :: "int list"

text \<open>
  The closure \<^verbatim>\<open>getNextAvailablePosForContinuingPipe\<close> is the loop below started at 0.
  The source loop has no bound; it ends because the set is finite.
\<close>

function nextAvailablePosForContinuingPipe :: "int list \<Rightarrow> int \<Rightarrow> int" where
  "nextAvailablePosForContinuingPipe traversed i =
     (if i \<notin> set traversed then i
      else nextAvailablePosForContinuingPipe traversed (i + 1))"
  by pat_completeness auto

termination nextAvailablePosForContinuingPipe
proof (relation "measure (\<lambda>(traversed, i). length (filter (\<lambda>x. i \<le> x) traversed))")
  fix traversed :: "int list" and i :: int
  assume "\<not> i \<notin> set traversed"
  then have mem: "i \<in> set (filter (\<lambda>x. i \<le> x) traversed)"
    by simp
  have "filter (\<lambda>x. i + 1 \<le> x) traversed
        = filter (\<lambda>x. x \<noteq> i) (filter (\<lambda>x. i \<le> x) traversed)"
    by (induction traversed) auto
  with mem have "length (filter (\<lambda>x. i + 1 \<le> x) traversed)
                 < length (filter (\<lambda>x. i \<le> x) traversed)"
    by (metis (mono_tags, lifting) length_filter_less)
  then show "((traversed, i + 1), (traversed, i))
        \<in> measure (\<lambda>(traversed, i). length (filter (\<lambda>x. i \<le> x) traversed))"
    by simp
qed simp

declare nextAvailablePosForContinuingPipe.simps [simp del]

definition getNextAvailablePosForContinuingPipe :: "'s Lanes \<Rightarrow> int" where
  "getNextAvailablePosForContinuingPipe st =
     nextAvailablePosForContinuingPipe (traversedSpots st) 0"

text \<open>The closure \<^verbatim>\<open>getNextAvailablePosForNewPipe\<close>, likewise.\<close>

function nextAvailablePosForNewPipe :: "int list \<Rightarrow> int list \<Rightarrow> int \<Rightarrow> int" where
  "nextAvailablePosForNewPipe taken traversedForContinuing i =
     (if i \<notin> set taken \<and> i \<notin> set traversedForContinuing then i
      else nextAvailablePosForNewPipe taken traversedForContinuing (i + 1))"
  by pat_completeness auto

termination nextAvailablePosForNewPipe
proof (relation "measure (\<lambda>(taken, traversedForContinuing, i).
         length (filter (\<lambda>x. i \<le> x) (taken @ traversedForContinuing)))")
  fix taken traversedForContinuing :: "int list" and i :: int
  define both where "both = taken @ traversedForContinuing"
  assume "\<not> (i \<notin> set taken \<and> i \<notin> set traversedForContinuing)"
  then have mem: "i \<in> set (filter (\<lambda>x. i \<le> x) both)"
    by (auto simp: both_def)
  have "filter (\<lambda>x. i + 1 \<le> x) both = filter (\<lambda>x. x \<noteq> i) (filter (\<lambda>x. i \<le> x) both)"
    by (induction both) auto
  with mem have "length (filter (\<lambda>x. i + 1 \<le> x) both) < length (filter (\<lambda>x. i \<le> x) both)"
    by (metis (mono_tags, lifting) length_filter_less)
  then show "((taken, traversedForContinuing, i + 1), (taken, traversedForContinuing, i))
        \<in> measure (\<lambda>(taken, traversedForContinuing, i).
             length (filter (\<lambda>x. i \<le> x) (taken @ traversedForContinuing)))"
    by (simp add: both_def)
qed simp

declare nextAvailablePosForNewPipe.simps [simp del]

definition getNextAvailablePosForNewPipe :: "int list \<Rightarrow> 's Lanes \<Rightarrow> int" where
  "getNextAvailablePosForNewPipe traversedSpotsForContinuingPipes st =
     nextAvailablePosForNewPipe (takenSpots st) traversedSpotsForContinuingPipes 0"

text \<open>The closure \<^verbatim>\<open>traverse\<close>.\<close>

definition traverse :: "int \<Rightarrow> int \<Rightarrow> 's Lanes \<Rightarrow> 's Lanes" where
  "traverse from to st =
     (let l = (if from > to then to else from);
          r = (if from > to then from else to)
      in st\<lparr>traversedSpots := [l..r] @ traversedSpots st,
            takenSpots := to # takenSpots st\<rparr>)"

definition appendPipe :: "'s Pipe \<Rightarrow> 's Lanes \<Rightarrow> 's Lanes" where
  "appendPipe pipe st = st\<lparr>newPipes := newPipes st @ [pipe]\<rparr>"

text \<open>The body of the loop that terminates pipes and continues those left of the commit.\<close>

definition stepLeft :: "Commit \<Rightarrow> int \<Rightarrow> 's Lanes \<Rightarrow> 's Pipe \<Rightarrow> 's Lanes" where
  "stepLeft commit pos st pipe =
     (if equalHashes (toHash pipe) (Hash commit) then
        traverse (toPos pipe) pos
          (appendPipe \<lparr>fromPos = toPos pipe, toPos = pos, fromHash = fromHash pipe,
                       toHash = toHash pipe, kind = TERMINATES, style = style pipe\<rparr> st)
      else if toPos pipe < pos then
        (let availablePos = getNextAvailablePosForContinuingPipe st
         in traverse (toPos pipe) availablePos
              (appendPipe \<lparr>fromPos = toPos pipe, toPos = availablePos, fromHash = fromHash pipe,
                           toHash = toHash pipe, kind = CONTINUES, style = style pipe\<rparr> st))
      else st)"

text \<open>The body of the loop over \<^verbatim>\<open>commit.Parents[1:]\<close>.\<close>

definition stepParent ::
  "Commit \<Rightarrow> (Commit \<Rightarrow> 's) \<Rightarrow> int \<Rightarrow> int list \<Rightarrow> 's Lanes \<Rightarrow> string \<Rightarrow> 's Lanes" where
  "stepParent commit getStyle pos traversedSpotsForContinuingPipes st parent =
     (let availablePos = getNextAvailablePosForNewPipe traversedSpotsForContinuingPipes st;
          st' = appendPipe \<lparr>fromPos = pos, toPos = availablePos, fromHash = Hash commit,
                            toHash = parent, kind = STARTS, style = getStyle commit\<rparr> st
      in st'\<lparr>takenSpots := availablePos # takenSpots st'\<rparr>)"

text \<open>
  The inner loop of the last pass, \<^verbatim>\<open>for i := pipe.toPos; i > pos; i--\<close>, with its
  \<^verbatim>\<open>break\<close>; the result is the final value of \<^verbatim>\<open>last\<close> (here \<open>lastPos\<close>).
\<close>

function slideLeft :: "int list \<Rightarrow> int list \<Rightarrow> int \<Rightarrow> int \<Rightarrow> int \<Rightarrow> int" where
  "slideLeft taken traversed pos i lastPos =
     (if i > pos then
        (if i \<in> set taken \<or> i \<in> set traversed then lastPos
         else slideLeft taken traversed pos (i - 1) i)
      else lastPos)"
  by pat_completeness auto

termination slideLeft
  by (relation "measure (\<lambda>(taken, traversed, pos, i, lastPos). nat (i - pos))") auto

declare slideLeft.simps [simp del]

text \<open>The body of the loop that continues the pipes right of the commit.\<close>

definition stepRight :: "Commit \<Rightarrow> int \<Rightarrow> 's Lanes \<Rightarrow> 's Pipe \<Rightarrow> 's Lanes" where
  "stepRight commit pos st pipe =
     (if \<not> equalHashes (toHash pipe) (Hash commit) \<and> toPos pipe > pos then
        (let lastPos = slideLeft (takenSpots st) (traversedSpots st) pos (toPos pipe) (toPos pipe)
         in traverse (toPos pipe) lastPos
              (appendPipe \<lparr>fromPos = toPos pipe, toPos = lastPos, fromHash = fromHash pipe,
                           toHash = toHash pipe, kind = CONTINUES, style = style pipe\<rparr> st))
      else st)"

text \<open>
  The comparator handed to \<^verbatim>\<open>slices.SortFunc\<close>; \<^verbatim>\<open>cmp.Compare\<close> gives -1, 0 or 1.
\<close>

definition cmpCompare :: "'a::linorder \<Rightarrow> 'a \<Rightarrow> int" where
  "cmpCompare x y = (if x < y then -1 else if x > y then 1 else 0)"

definition pipeCmp :: "'s Pipe \<Rightarrow> 's Pipe \<Rightarrow> int" where
  "pipeCmp a b =
     (if toPos a = toPos b then cmpCompare (kindOrd (kind a)) (kindOrd (kind b))
      else cmpCompare (toPos a) (toPos b))"

text \<open>
  \<^verbatim>\<open>slices.SortFunc\<close> belongs to Go's standard library. It is modelled by insertion
  sort, which is what the library runs on slices of at most 12 elements: each element
  in turn moves left while it compares below its left neighbour. On longer slices the
  library may order elements that compare equal differently; the general theorems
  below use only that the result is a sorted rearrangement of the input.
\<close>

fun insertSorted :: "('a \<Rightarrow> 'a \<Rightarrow> int) \<Rightarrow> 'a \<Rightarrow> 'a list \<Rightarrow> 'a list" where
  "insertSorted cmp x [] = [x]"
| "insertSorted cmp x (y # ys) =
     (if cmp x y < 0 then x # y # ys else y # insertSorted cmp x ys)"

definition SortFunc :: "('a \<Rightarrow> 'a \<Rightarrow> int) \<Rightarrow> 'a list \<Rightarrow> 'a list" where
  "SortFunc cmp xs = foldl (\<lambda>sorted x. insertSorted cmp x sorted) [] xs"

text \<open>The pipe that the commit itself starts, toward its first parent or the sentinel.\<close>

definition firstPipe :: "Commit \<Rightarrow> (Commit \<Rightarrow> 's) \<Rightarrow> int \<Rightarrow> 's Pipe" where
  "firstPipe commit getStyle pos =
     (if length (Parents commit) > 0 then
        \<lparr>fromPos = pos, toPos = pos, fromHash = Hash commit,
         toHash = Parents commit ! 0, kind = STARTS, style = getStyle commit\<rparr>
      else
        \<lparr>fromPos = pos, toPos = pos, fromHash = Hash commit,
         toHash = EmptyTreeCommitHash, kind = STARTS, style = getStyle commit\<rparr>)"

text \<open>The pipes of the row before sorting, and the lanes marked while building them.\<close>

definition buildPipes :: "'s Pipe list \<Rightarrow> Commit \<Rightarrow> (Commit \<Rightarrow> 's) \<Rightarrow> 's Lanes" where
  "buildPipes prevPipes commit getStyle =
     (let maxPos = maxToPos prevPipes;
          currentPipes = filter (\<lambda>pipe. kind pipe \<noteq> TERMINATES) prevPipes;
          pos = findPos (maxPos + 1) (Hash commit) currentPipes;
          st0 = \<lparr>newPipes = [firstPipe commit getStyle pos],
                 takenSpots = [], traversedSpots = []\<rparr>;
          traversedSpotsForContinuingPipes =
            map toPos (filter (\<lambda>pipe. \<not> equalHashes (toHash pipe) (Hash commit)) currentPipes);
          st1 = foldl (stepLeft commit pos) st0 currentPipes;
          st2 = (if IsMerge commit
                 then foldl (stepParent commit getStyle pos traversedSpotsForContinuingPipes)
                        st1 (drop 1 (Parents commit))
                 else st1)
      in foldl (stepRight commit pos) st2 currentPipes)"

definition getNextPipes :: "'s Pipe list \<Rightarrow> Commit \<Rightarrow> (Commit \<Rightarrow> 's) \<Rightarrow> 's Pipe list" where
  "getNextPipes prevPipes commit getStyle =
     SortFunc pipeCmp (newPipes (buildPipes prevPipes commit getStyle))"

text \<open>
  \<^verbatim>\<open>lo.Map\<close> with a closure that overwrites the captured variable \<^verbatim>\<open>pipes\<close>: each row is
  computed from the row before.
\<close>

fun mapPipes :: "'s Pipe list \<Rightarrow> (Commit \<Rightarrow> 's) \<Rightarrow> Commit list \<Rightarrow> 's Pipe list list" where
  "mapPipes pipes getStyle [] = []"
| "mapPipes pipes getStyle (commit # commits) =
     (let pipes' = getNextPipes pipes commit getStyle
      in pipes' # mapPipes pipes' getStyle commits)"

text \<open>
  \<^verbatim>\<open>style.FgDefault\<close> is a value of the style package; it is the first argument here.
\<close>

definition GetPipeSets :: "'s \<Rightarrow> Commit list \<Rightarrow> (Commit \<Rightarrow> 's) \<Rightarrow> 's Pipe list list" where
  "GetPipeSets FgDefault commits getStyle =
     (if length commits = 0 then []
      else mapPipes [\<lparr>fromPos = 0, toPos = 0, fromHash = ''START'',
                      toHash = Hash (commits ! 0), kind = STARTS, style = FgDefault\<rparr>]
             getStyle commits)"

section \<open>Rendering one row\<close>

text \<open>
  Modelled from the spec: the constants \<^verbatim>\<open>CONNECTION\<close>, \<^verbatim>\<open>COMMIT\<close> and \<^verbatim>\<open>MERGE\<close> are
  declared with the cell type, outside graph.go; the spec lists them as the semantic
  types of a cell.
\<close>

datatype cellType = CONNECTION | COMMIT | MERGE

text \<open>
  What graph.go uses from outside: two styles and the cell type with its methods
  (\<open>'c\<close> is a cell, \<open>'s\<close> a style). Every method that mutates its receiver is a function
  to the new cell; \<open>render\<close> gives the text a cell appends to the writer.
  \<open>highlightStyle\<close> is the package variable of graph.go, a value of the style package.
\<close>

record ('c, 's) Cells =
  FgDefault :: 's
  highlightStyle :: 's
  newCell :: "cellType \<Rightarrow> 's \<Rightarrow> 'c"
  setLeft :: "'s \<Rightarrow> 'c \<Rightarrow> 'c"
  setRight :: "'s \<Rightarrow> bool \<Rightarrow> 'c \<Rightarrow> 'c"
  setUp :: "'s \<Rightarrow> 'c \<Rightarrow> 'c"
  setDown :: "'s \<Rightarrow> 'c \<Rightarrow> 'c"
  setStyle :: "'s \<Rightarrow> 'c \<Rightarrow> 'c"
  setType :: "cellType \<Rightarrow> 'c \<Rightarrow> 'c"
  reset :: "'c \<Rightarrow> 'c"
  render :: "'c \<Rightarrow> string"

text \<open>
  \<^verbatim>\<open>cells[i].m(...)\<close>: Go panics when the index is outside the slice; the panic is the
  value \<open>None\<close>.
\<close>

definition modifyCell :: "('c \<Rightarrow> 'c) \<Rightarrow> int \<Rightarrow> 'c list \<Rightarrow> 'c list option" where
  "modifyCell m i cells =
     (if 0 \<le> i \<and> i < int (length cells)
      then Some (cells[nat i := m (cells ! nat i)])
      else None)"

text \<open>A \<^verbatim>\<open>for ... range\<close> loop whose body may panic.\<close>

fun forEach :: "('a \<Rightarrow> 'b \<Rightarrow> 'b option) \<Rightarrow> 'a list \<Rightarrow> 'b \<Rightarrow> 'b option" where
  "forEach body [] s = Some s"
| "forEach body (x # xs) s =
     (case body x s of None \<Rightarrow> None | Some s' \<Rightarrow> forEach body xs s')"

text \<open>The first loop of \<^verbatim>\<open>renderPipeSet\<close>: \<open>(maxPos, commitPos, startCount)\<close>.\<close>

definition scanStep :: "int \<times> int \<times> nat \<Rightarrow> 's Pipe \<Rightarrow> int \<times> int \<times> nat" where
  "scanStep acc pipe =
     (case acc of (maxPos, commitPos, startCount) \<Rightarrow>
        (let (startCount', commitPos') =
               (if kind pipe = STARTS then (startCount + 1, fromPos pipe)
                else if kind pipe = TERMINATES then (startCount, toPos pipe)
                else (startCount, commitPos));
             maxPos' = (if right pipe > maxPos then right pipe else maxPos)
         in (maxPos', commitPos', startCount')))"

definition scanPipes :: "'s Pipe list \<Rightarrow> int \<times> int \<times> nat" where
  "scanPipes pipes = foldl scanStep (0, 0, 0) pipes"

text \<open>The closure \<^verbatim>\<open>renderPipe\<close>.\<close>

definition renderPipe ::
  "('c, 's) Cells \<Rightarrow> 's Pipe \<Rightarrow> 's \<Rightarrow> bool \<Rightarrow> 'c list \<Rightarrow> 'c list option" where
  "renderPipe ext pipe sty overrideRightStyle cells =
     (let l = left pipe; r = right pipe in
      do {
        cells1 \<leftarrow>
          (if l \<noteq> r then
             do {
               cs \<leftarrow> forEach
                 (modifyCell (\<lambda>c. setRight ext sty overrideRightStyle (setLeft ext sty c)))
                 [l + 1..r - 1] cells;
               cs' \<leftarrow> modifyCell (setRight ext sty overrideRightStyle) l cs;
               modifyCell (setLeft ext sty) r cs'
             }
           else Some cells);
        cells2 \<leftarrow>
          (if kind pipe = STARTS \<or> kind pipe = CONTINUES
           then modifyCell (setDown ext sty) (toPos pipe) cells1
           else Some cells1);
        (if kind pipe = TERMINATES \<or> kind pipe = CONTINUES
         then modifyCell (setUp ext sty) (fromPos pipe) cells2
         else Some cells2)
      })"

text \<open>
  Modelled from the spec: \<^verbatim>\<open>utils.Partition\<close> is declared outside graph.go; the spec has
  it split the pipes into those that pass the test and the others, in order.
\<close>

definition Partition :: "'a list \<Rightarrow> ('a \<Rightarrow> bool) \<Rightarrow> 'a list \<times> 'a list" where
  "Partition xs test = (filter test xs, filter (\<lambda>x. \<not> test x) xs)"

definition renderPipeSet ::
  "('c, 's) Cells \<Rightarrow> 's Pipe list \<Rightarrow> string \<Rightarrow> Commit option \<Rightarrow> string option" where
  "renderPipeSet ext pipes selectedCommitHash prevCommit =
     (case scanPipes pipes of (maxPos, commitPos, startCount) \<Rightarrow>
      (let isMerge = (startCount > 1);
           cells0 = map (\<lambda>i. newCell ext CONNECTION (FgDefault ext)) [0..maxPos];
           highlight =
             (case prevCommit of
                None \<Rightarrow> True
              | Some prev \<Rightarrow>
                  (if equalHashes (Hash prev) selectedCommitHash
                   then list_ex (\<lambda>pipe. equalHashes (fromHash pipe) selectedCommitHash \<and>
                                  (kind pipe \<noteq> TERMINATES \<or> fromPos pipe \<noteq> toPos pipe)) pipes
                   else True));
           (selectedPipes, nonSelectedPipes) =
             Partition pipes
               (\<lambda>pipe. highlight \<and> equalHashes (fromHash pipe) selectedCommitHash)
       in do {
         cells1 \<leftarrow> forEach
           (\<lambda>pipe cells. if kind pipe = STARTS
              then renderPipe ext pipe (style pipe) True cells else Some cells)
           nonSelectedPipes cells0;
         cells2 \<leftarrow> forEach
           (\<lambda>pipe cells.
              if kind pipe \<noteq> STARTS \<and>
                 \<not> (kind pipe = TERMINATES \<and> fromPos pipe = commitPos \<and> toPos pipe = commitPos)
              then renderPipe ext pipe (style pipe) False cells else Some cells)
           nonSelectedPipes cells1;
         cells3 \<leftarrow> forEach
           (\<lambda>pipe. forEach (modifyCell (reset ext)) [left pipe..right pipe])
           selectedPipes cells2;
         cells4 \<leftarrow> forEach
           (\<lambda>pipe cells. do {
              cs \<leftarrow> renderPipe ext pipe (highlightStyle ext) True cells;
              (if toPos pipe = commitPos
               then modifyCell (setStyle ext (highlightStyle ext)) (toPos pipe) cs
               else Some cs)
            })
           selectedPipes cells3;
         cells5 \<leftarrow> modifyCell (setType ext (if isMerge then MERGE else COMMIT)) commitPos cells4;
         Some (concat (map (render ext) cells5))
       }))"

section \<open>Rendering all rows\<close>

text \<open>
  One goroutine of \<^verbatim>\<open>RenderAux\<close>: the lines of \<^verbatim>\<open>pipeSets[from:to]\<close>. Slicing out of
  bounds and reading \<^verbatim>\<open>commits[k-1]\<close> beyond the list panic.
\<close>

definition renderLine ::
  "('c, 's) Cells \<Rightarrow> Commit list \<Rightarrow> string \<Rightarrow> nat \<Rightarrow> 's Pipe list \<Rightarrow> string option" where
  "renderLine ext commits selectedCommitHash k pipeSet =
     (if k > 0 then
        (if k - 1 < length commits
         then renderPipeSet ext pipeSet selectedCommitHash (Some (commits ! (k - 1)))
         else None)
      else renderPipeSet ext pipeSet selectedCommitHash None)"

definition renderChunk ::
  "('c, 's) Cells \<Rightarrow> 's Pipe list list \<Rightarrow> Commit list \<Rightarrow> string \<Rightarrow> nat \<Rightarrow> nat
     \<Rightarrow> string list option" where
  "renderChunk ext pipeSets commits selectedCommitHash from to =
     (if from \<le> to \<and> to \<le> length pipeSets then
        those (map (\<lambda>(j, pipeSet). renderLine ext commits selectedCommitHash (from + j) pipeSet)
                 (enumerate 0 (take (to - from) (drop from pipeSets))))
      else None)"

text \<open>
  \<^verbatim>\<open>RenderAux\<close>, with the value of \<^verbatim>\<open>runtime.GOMAXPROCS(0)\<close> as the argument \<open>maxProcs\<close>.
  Goroutine \<open>i\<close> reads its own \<open>i\<close> (the loop variable is per iteration, as from
  Go 1.22) and writes only \<^verbatim>\<open>chunks[i]\<close>, and the function returns after all of them
  are done, so the result is the list of the chunks; a panic in any of them ends the
  program. Dividing by \<open>maxProcs = 0\<close> panics.
\<close>

definition RenderAux ::
  "('c, 's) Cells \<Rightarrow> nat \<Rightarrow> 's Pipe list list \<Rightarrow> Commit list \<Rightarrow> string
     \<Rightarrow> string list option" where
  "RenderAux ext maxProcs pipeSets commits selectedCommitHash =
     (if maxProcs = 0 then None
      else
        (let perProc = length pipeSets div maxProcs;
             chunks = map (\<lambda>i.
                 (let from = i * perProc;
                      to = (if i = maxProcs - 1 then length pipeSets else (i + 1) * perProc)
                  in renderChunk ext pipeSets commits selectedCommitHash from to))
               [0..<maxProcs]
         in map_option concat (those chunks)))"

definition RenderCommitGraph ::
  "('c, 's) Cells \<Rightarrow> nat \<Rightarrow> Commit list \<Rightarrow> string \<Rightarrow> (Commit \<Rightarrow> 's)
     \<Rightarrow> string list option" where
  "RenderCommitGraph ext maxProcs commits selectedCommitHash getStyle =
     (let pipeSets = GetPipeSets (FgDefault ext) commits getStyle
      in if length pipeSets = 0 then Some []
         else RenderAux ext maxProcs pipeSets commits selectedCommitHash)"

section \<open>Example histories\<close>

text \<open>A style lookup that gives every commit the same style.\<close>

definition plainStyle :: "Commit \<Rightarrow> unit" where
  "plainStyle commit = ()"

text \<open>The linear chain C3, C2, C1, newest first; C1 is the root.\<close>

definition linearChain :: "Commit list" where
  "linearChain = [\<lparr>Hash = ''C3'', Parents = [''C2'']\<rparr>,
                  \<lparr>Hash = ''C2'', Parents = [''C1'']\<rparr>,
                  \<lparr>Hash = ''C1'', Parents = []\<rparr>]"

text \<open>
  A log of two branches (\<^verbatim>\<open>git log --all\<close>): commit \<open>a\<close> with parent \<open>b\<close>, then the merge
  commit \<open>c\<close> of \<open>d\<close> and \<open>e\<close>, which no earlier commit has as a parent, then the root
  commit \<open>d\<close>.
\<close>

definition unrelatedMerge :: "Commit list" where
  "unrelatedMerge = [\<lparr>Hash = ''a'', Parents = [''b'']\<rparr>,
                     \<lparr>Hash = ''c'', Parents = [''d'', ''e'']\<rparr>,
                     \<lparr>Hash = ''d'', Parents = []\<rparr>]"

text \<open>
  The same merge commit \<open>c\<close> below a commit \<open>a\<close> that has it as its parent, so that a
  pipe arrives at \<open>c\<close>.
\<close>

definition relatedMerge :: "Commit list" where
  "relatedMerge = [\<lparr>Hash = ''a'', Parents = [''c'']\<rparr>,
                   \<lparr>Hash = ''c'', Parents = [''d'', ''e'']\<rparr>,
                   \<lparr>Hash = ''d'', Parents = []\<rparr>]"

text \<open>The first row of the linear chain.\<close>

definition chainRow0 :: "unit Pipe list" where
  "chainRow0 = [\<lparr>fromPos = 0, toPos = 0, fromHash = ''START'', toHash = ''C3'',
      kind = TERMINATES, style = ()\<rparr>,
     \<lparr>fromPos = 0, toPos = 0, fromHash = ''C3'', toHash = ''C2'',
      kind = STARTS, style = ()\<rparr>]"

text \<open>
  A stand-in for the cell type, for evaluating the examples: a cell is the string of the
  marks that the methods applied to it leave, and it renders as that string.
\<close>

definition traceCells :: "(string, unit) Cells" where
  "traceCells = \<lparr>FgDefault = (), highlightStyle = (),
     newCell = (\<lambda>t s. ''.''),
     setLeft = (\<lambda>s c. c @ ''l''),
     setRight = (\<lambda>s overrideStyle c. c @ ''r''),
     setUp = (\<lambda>s c. c @ ''u''),
     setDown = (\<lambda>s c. c @ ''d''),
     setStyle = (\<lambda>s c. c),
     setType = (\<lambda>t c. c @ (case t of CONNECTION \<Rightarrow> ''-'' | COMMIT \<Rightarrow> ''*'' | MERGE \<Rightarrow> ''M'')),
     reset = (\<lambda>c. ''.''),
     render = (\<lambda>c. c)\<rparr>"

section \<open>Predicates of the theorems\<close>

text \<open>The order that the comparator \<open>pipeCmp\<close> decides: lane first, then kind.\<close>

definition pipeLe :: "'s Pipe \<Rightarrow> 's Pipe \<Rightarrow> bool" where
  "pipeLe a b = (toPos a < toPos b \<or> (toPos a = toPos b \<and> kindOrd (kind a) \<le> kindOrd (kind b)))"

text \<open>The lane \<^verbatim>\<open>pos\<close> on which \<open>getNextPipes\<close> places the commit.\<close>

definition commitLane :: "'s Pipe list \<Rightarrow> Commit \<Rightarrow> int" where
  "commitLane prevPipes commit =
     findPos (maxToPos prevPipes + 1) (Hash commit)
       (filter (\<lambda>pipe. kind pipe \<noteq> TERMINATES) prevPipes)"

text \<open>A pipe that starts does so on lane \<open>pos\<close>; a pipe that terminates ends there.\<close>

definition atLane :: "int \<Rightarrow> 's Pipe \<Rightarrow> bool" where
  "atLane pos pipe = ((kind pipe = STARTS \<longrightarrow> fromPos pipe = pos) \<and>
                      (kind pipe = TERMINATES \<longrightarrow> toPos pipe = pos))"

text \<open>Both lanes of the pipe are lanes (not negative), and below \<open>n\<close>.\<close>

definition nonneg :: "'s Pipe \<Rightarrow> bool" where
  "nonneg pipe = (0 \<le> fromPos pipe \<and> 0 \<le> toPos pipe)"

definition inRange :: "nat \<Rightarrow> 's Pipe \<Rightarrow> bool" where
  "inRange n pipe = (0 \<le> fromPos pipe \<and> 0 \<le> toPos pipe \<and>
                     fromPos pipe < int n \<and> toPos pipe < int n)"

section \<open>Hash comparison: theorems\<close>

text \<open>
  C5. \<open>equalHashes\<close> is false whenever either operand is the empty string; it is true for
  two non-empty strings of which one is a prefix of the other; it is false for two
  non-empty strings that differ at a position within the shorter length. In particular
  it is false on the empty string and \<open>abc\<close>, true on \<open>abcd\<close> and \<open>abcdef\<close>, false on
  \<open>abcx\<close> and \<open>abcy\<close>.
\<close>

theorem equalHashes_cases:
  "\<not> equalHashes [] b \<and> \<not> equalHashes a [] \<and>
   (a \<noteq> [] \<and> b \<noteq> [] \<and> (prefix a b \<or> prefix b a) \<longrightarrow> equalHashes a b) \<and>
   (a \<noteq> [] \<and> b \<noteq> [] \<and> (\<exists>i < min (length a) (length b). a ! i \<noteq> b ! i)
      \<longrightarrow> \<not> equalHashes a b) \<and>
   \<not> equalHashes '''' ''abc'' \<and> equalHashes ''abcd'' ''abcdef'' \<and>
   \<not> equalHashes ''abcx'' ''abcy''"
proof -
  have pre: "equalHashes a b" if "a \<noteq> []" "b \<noteq> []" "prefix a b \<or> prefix b a"
    using that unfolding equalHashes_def Let_def
    by (auto simp: prefix_def min_def)
  have diff: "\<not> equalHashes a b"
    if "i < min (length a) (length b)" "a ! i \<noteq> b ! i" for i
  proof
    assume "equalHashes a b"
    then have "take (min (length a) (length b)) a = take (min (length a) (length b)) b"
      unfolding equalHashes_def Let_def by (simp split: if_splits)
    then have "take (min (length a) (length b)) a ! i = take (min (length a) (length b)) b ! i"
      by simp
    with that show False
      by simp
  qed
  have empty: "\<not> equalHashes [] b" "\<not> equalHashes a []"
    by (simp_all add: equalHashes_def)
  have examples: "\<not> equalHashes '''' ''abc''" "equalHashes ''abcd'' ''abcdef''"
    "\<not> equalHashes ''abcx'' ''abcy''"
    by (simp_all add: equalHashes_def)
  from empty pre diff examples show ?thesis
    by blast
qed

theorem equalHashes_cases_witness:
  "''abcd'' \<noteq> [] \<and> ''abcdef'' \<noteq> [] \<and> prefix ''abcd'' ''abcdef'' \<and>
   equalHashes ''abcd'' ''abcdef'' \<and>
   ''abcx'' \<noteq> [] \<and> ''abcy'' \<noteq> [] \<and> 3 < min (length ''abcx'') (length ''abcy'') \<and>
   ''abcx'' ! 3 \<noteq> ''abcy'' ! 3 \<and> \<not> equalHashes ''abcx'' ''abcy''"
proof -
  have p: "prefix ''abcd'' ''abcdef''"
    by (simp add: prefix_def)
  have d: "\<exists>i < min (length ''abcx'') (length ''abcy''). ''abcx'' ! i \<noteq> ''abcy'' ! i"
    by (rule exI [of _ 3]) simp
  from p equalHashes_cases [of "''abcdef''" "''abcd''"]
  have "equalHashes ''abcd'' ''abcdef''"
    by simp
  moreover from d equalHashes_cases [of "''abcy''" "''abcx''"]
  have "\<not> equalHashes ''abcx'' ''abcy''"
    by blast
  ultimately show ?thesis
    using p by simp
qed

text \<open>
  C10. Prefix equality of hashes is not transitive: \<open>ab\<close> equals both \<open>abc\<close> and
  \<open>abd\<close>, which are not equal to each other.
\<close>

theorem equalHashes_not_transitive:
  "equalHashes ''ab'' ''abc'' \<and> equalHashes ''ab'' ''abd'' \<and> \<not> equalHashes ''abc'' ''abd''"
  by (simp add: equalHashes_def)

section \<open>The rows of the example histories\<close>

text \<open>
  C8, as stated, has every row of the linear chain hold exactly one pipe. Each row
  holds two: the first row has length 2, not 1.
\<close>

theorem linearChain_row_sizes:
  "map length (GetPipeSets () linearChain plainStyle) = [2, 2, 2] \<and>
   length (GetPipeSets () linearChain plainStyle ! 0) \<noteq> 1"
  by code_simp

text \<open>
  C8, amended. For the linear chain C3, C2, C1, \<open>GetPipeSets\<close> yields three rows. Each
  row holds exactly two pipes, both from lane 0 to lane 0: first the pipe that terminates
  at the row's commit (in the first row the synthetic pipe from \<open>START\<close>), then the pipe
  that the commit starts toward its parent. The pipe started in the last row, by the root
  C1, targets the sentinel.
\<close>

theorem linearChain_rows:
  "GetPipeSets fg linearChain getStyle =
   [[\<lparr>fromPos = 0, toPos = 0, fromHash = ''START'', toHash = ''C3'',
      kind = TERMINATES, style = fg\<rparr>,
     \<lparr>fromPos = 0, toPos = 0, fromHash = ''C3'', toHash = ''C2'',
      kind = STARTS, style = getStyle (linearChain ! 0)\<rparr>],
    [\<lparr>fromPos = 0, toPos = 0, fromHash = ''C3'', toHash = ''C2'',
      kind = TERMINATES, style = getStyle (linearChain ! 0)\<rparr>,
     \<lparr>fromPos = 0, toPos = 0, fromHash = ''C2'', toHash = ''C1'',
      kind = STARTS, style = getStyle (linearChain ! 1)\<rparr>],
    [\<lparr>fromPos = 0, toPos = 0, fromHash = ''C2'', toHash = ''C1'',
      kind = TERMINATES, style = getStyle (linearChain ! 1)\<rparr>,
     \<lparr>fromPos = 0, toPos = 0, fromHash = ''C1'', toHash = EmptyTreeCommitHash,
      kind = STARTS, style = getStyle (linearChain ! 2)\<rparr>]]"
  by (simp add: GetPipeSets_def linearChain_def getNextPipes_def buildPipes_def maxToPos_def
      equalHashes_def firstPipe_def stepLeft_def stepRight_def IsMerge_def traverse_def
      appendPipe_def SortFunc_def pipeCmp_def cmpCompare_def)

text \<open>
  C1 on the code. In the row of the merge commit \<open>c\<close>, which has no pipe arriving, the
  two pipes that \<open>c\<close> starts both end on lane 1: two pipes that do not terminate share
  a destination lane.
\<close>

theorem unrelatedMerge_lane_shared:
  "GetPipeSets () unrelatedMerge plainStyle ! 1 =
     [\<lparr>fromPos = 0, toPos = 0, fromHash = ''a'', toHash = ''b'', kind = CONTINUES, style = ()\<rparr>,
      \<lparr>fromPos = 1, toPos = 1, fromHash = ''c'', toHash = ''d'', kind = STARTS, style = ()\<rparr>,
      \<lparr>fromPos = 1, toPos = 1, fromHash = ''c'', toHash = ''e'', kind = STARTS, style = ()\<rparr>]"
  by code_simp

text \<open>
  C2 on the code. The merge commit \<open>c\<close> has two parents and its row has two \<open>STARTS\<close>
  pipes from \<open>c\<close>, but their destination lanes are 1 and 1, not distinct.
\<close>

theorem unrelatedMerge_starts_lanes:
  "map toPos (filter (\<lambda>pipe. kind pipe = STARTS \<and> fromHash pipe = ''c'')
                (getNextPipes (GetPipeSets () unrelatedMerge plainStyle ! 0)
                   (unrelatedMerge ! 1) plainStyle)) = [1, 1]"
  by code_simp

text \<open>
  C6 on the code. The row of \<open>c\<close> holds the pipe from \<open>c\<close> to \<open>e\<close>, which is not
  \<open>TERMINATES\<close> and whose destination \<open>e\<close> does not match the next commit \<open>d\<close>; the row
  that \<open>getNextPipes\<close> computes for \<open>d\<close> holds no pipe from \<open>c\<close> to \<open>e\<close>.
\<close>

theorem unrelatedMerge_pipe_dropped:
  "map (\<lambda>pipe. (fromHash pipe, toHash pipe, kind pipe))
      (GetPipeSets () unrelatedMerge plainStyle ! 1)
     = [(''a'', ''b'', CONTINUES), (''c'', ''d'', STARTS), (''c'', ''e'', STARTS)] \<and>
   \<not> equalHashes ''e'' (Hash (unrelatedMerge ! 2)) \<and>
   map (\<lambda>pipe. (fromHash pipe, toHash pipe, kind pipe))
      (getNextPipes (GetPipeSets () unrelatedMerge plainStyle ! 1)
         (unrelatedMerge ! 2) plainStyle)
     = [(''a'', ''b'', CONTINUES), (''c'', ''d'', TERMINATES),
        (''d'', EmptyTreeCommitHash, STARTS)]"
  by code_simp

text \<open>
  For comparison, the merge commit with an arriving pipe: the pipe terminates on the
  commit's lane 0, which marks it taken, the second parent gets lane 1, and in the row
  of \<open>d\<close> the pipe from \<open>c\<close> to \<open>e\<close> continues.
\<close>

lemma relatedMerge_rows:
  "map (map (\<lambda>pipe. (fromPos pipe, toPos pipe, fromHash pipe, toHash pipe, kind pipe)))
     (drop 1 (GetPipeSets () relatedMerge plainStyle))
   = [[(0, 0, ''a'', ''c'', TERMINATES), (0, 0, ''c'', ''d'', STARTS),
       (0, 1, ''c'', ''e'', STARTS)],
      [(0, 0, ''c'', ''d'', TERMINATES), (0, 0, ''d'', EmptyTreeCommitHash, STARTS),
       (1, 1, ''c'', ''e'', CONTINUES)]]"
  by code_simp

section \<open>The sort\<close>

lemma set_insertSorted: "set (insertSorted cmp x xs) = insert x (set xs)"
  by (induction xs) auto

lemma set_SortFunc_aux:
  "set (foldl (\<lambda>sorted x. insertSorted cmp x sorted) acc xs) = set acc \<union> set xs"
  by (induction xs arbitrary: acc) (auto simp: set_insertSorted)

lemma set_SortFunc: "set (SortFunc cmp xs) = set xs"
  by (simp add: SortFunc_def set_SortFunc_aux)

lemma pipeCmp_less: "pipeCmp a b < 0 \<Longrightarrow> pipeLe a b"
  by (auto simp: pipeCmp_def cmpCompare_def pipeLe_def split: if_splits)

lemma pipeCmp_not_less: "\<not> pipeCmp a b < 0 \<Longrightarrow> pipeLe b a"
  by (auto simp: pipeCmp_def cmpCompare_def pipeLe_def split: if_splits)

lemma pipeLe_trans: "pipeLe a b \<Longrightarrow> pipeLe b c \<Longrightarrow> pipeLe a c"
  by (auto simp: pipeLe_def)

lemma sorted_insertSorted:
  "sorted_wrt pipeLe xs \<Longrightarrow> sorted_wrt pipeLe (insertSorted pipeCmp x xs)"
proof (induction xs)
  case Nil
  then show ?case by simp
next
  case (Cons y ys)
  show ?case
  proof (cases "pipeCmp x y < 0")
    case True
    then have "pipeLe x y" by (rule pipeCmp_less)
    moreover from this Cons.prems have "\<forall>z\<in>set ys. pipeLe x z"
      by (auto intro: pipeLe_trans)
    ultimately show ?thesis
      using True Cons.prems by simp
  next
    case False
    then have "pipeLe y x" by (rule pipeCmp_not_less)
    with False Cons show ?thesis
      by (auto simp: set_insertSorted)
  qed
qed

lemma sorted_SortFunc_aux:
  "sorted_wrt pipeLe acc \<Longrightarrow>
   sorted_wrt pipeLe (foldl (\<lambda>sorted x. insertSorted pipeCmp x sorted) acc xs)"
  by (induction xs arbitrary: acc) (auto intro: sorted_insertSorted)

lemma sorted_SortFunc: "sorted_wrt pipeLe (SortFunc pipeCmp xs)"
  by (simp add: SortFunc_def sorted_SortFunc_aux)

text \<open>
  C7. Every pipe list that \<open>getNextPipes\<close> returns is sorted ascending by destination
  lane, and among pipes with the same destination lane by the number of the kind, where
  \<open>TERMINATES\<close> is below \<open>STARTS\<close> and \<open>STARTS\<close> below \<open>CONTINUES\<close>.
\<close>

theorem getNextPipes_sorted:
  "sorted_wrt (\<lambda>a b. toPos a < toPos b \<or>
                  (toPos a = toPos b \<and> kindOrd (kind a) \<le> kindOrd (kind b)))
     (getNextPipes prevPipes commit getStyle) \<and>
   kindOrd TERMINATES < kindOrd STARTS \<and> kindOrd STARTS < kindOrd CONTINUES"
proof -
  have "sorted_wrt pipeLe (getNextPipes prevPipes commit getStyle)"
    unfolding getNextPipes_def by (rule sorted_SortFunc)
  then show ?thesis
    unfolding pipeLe_def by simp
qed

theorem getNextPipes_sorted_witness:
  "sorted_wrt (\<lambda>a b. toPos a < toPos b \<or>
                  (toPos a = toPos b \<and> kindOrd (kind a) \<le> kindOrd (kind b)))
     (getNextPipes chainRow0 (linearChain ! 1) plainStyle)"
  using getNextPipes_sorted [of chainRow0 "linearChain ! 1" plainStyle] by simp

section \<open>The lane of the commit\<close>

lemma foldl_invariant:
  assumes "I s" and "\<And>s x. x \<in> set xs \<Longrightarrow> I s \<Longrightarrow> I (f s x)"
  shows "I (foldl f s xs)"
  using assms by (induction xs arbitrary: s) auto

lemma stepLeft_atLane:
  "list_all (atLane pos) (newPipes st) \<Longrightarrow> list_all (atLane pos) (newPipes (stepLeft commit pos st pipe))"
  by (simp add: stepLeft_def traverse_def appendPipe_def Let_def atLane_def)

lemma stepParent_atLane:
  "list_all (atLane pos) (newPipes st) \<Longrightarrow>
   list_all (atLane pos) (newPipes (stepParent commit getStyle pos tfc st parent))"
  by (simp add: stepParent_def appendPipe_def Let_def atLane_def)

lemma stepRight_atLane:
  "list_all (atLane pos) (newPipes st) \<Longrightarrow> list_all (atLane pos) (newPipes (stepRight commit pos st pipe))"
  by (simp add: stepRight_def traverse_def appendPipe_def Let_def atLane_def)

lemma firstPipe_simps:
  "kind (firstPipe commit getStyle pos) = STARTS"
  "fromPos (firstPipe commit getStyle pos) = pos"
  "toPos (firstPipe commit getStyle pos) = pos"
  "fromHash (firstPipe commit getStyle pos) = Hash commit"
  by (simp_all add: firstPipe_def)

lemma buildPipes_atLane:
  "list_all (atLane (commitLane prevPipes commit)) (newPipes (buildPipes prevPipes commit getStyle))"
  unfolding buildPipes_def Let_def commitLane_def [symmetric]
  apply (rule foldl_invariant [where I = "\<lambda>st. list_all (atLane (commitLane prevPipes commit)) (newPipes st)"])
   apply (auto intro!: foldl_invariant [where I = "\<lambda>st. list_all (atLane (commitLane prevPipes commit)) (newPipes st)"] stepLeft_atLane stepParent_atLane stepRight_atLane simp: atLane_def firstPipe_simps )
  done

lemma stepLeft_keeps: "x \<in> set (newPipes st) \<Longrightarrow> x \<in> set (newPipes (stepLeft commit pos st pipe))"
  by (simp add: stepLeft_def traverse_def appendPipe_def Let_def)

lemma stepParent_keeps:
  "x \<in> set (newPipes st) \<Longrightarrow> x \<in> set (newPipes (stepParent commit getStyle pos tfc st parent))"
  by (simp add: stepParent_def appendPipe_def Let_def)

lemma stepRight_keeps: "x \<in> set (newPipes st) \<Longrightarrow> x \<in> set (newPipes (stepRight commit pos st pipe))"
  by (simp add: stepRight_def traverse_def appendPipe_def Let_def)

lemma buildPipes_firstPipe:
  "firstPipe commit getStyle (commitLane prevPipes commit)
     \<in> set (newPipes (buildPipes prevPipes commit getStyle))"
  unfolding buildPipes_def Let_def commitLane_def [symmetric]
  by (auto intro!: foldl_invariant [where I = "\<lambda>st. firstPipe commit getStyle (commitLane prevPipes commit) \<in> set (newPipes st)"]
        stepLeft_keeps stepParent_keeps stepRight_keeps)

lemma set_getNextPipes:
  "set (getNextPipes prevPipes commit getStyle) = set (newPipes (buildPipes prevPipes commit getStyle))"
  by (simp add: getNextPipes_def set_SortFunc)

lemma mapPipes_rows:
  "row \<in> set (mapPipes pipes getStyle commits) \<Longrightarrow>
   \<exists>prevPipes commit. commit \<in> set commits \<and> row = getNextPipes prevPipes commit getStyle"
proof (induction commits arbitrary: pipes)
  case Nil
  then show ?case by simp
next
  case (Cons c cs)
  from Cons.prems consider "row = getNextPipes pipes c getStyle"
    | "row \<in> set (mapPipes (getNextPipes pipes c getStyle) getStyle cs)"
    by (auto simp: Let_def)
  then show ?case
  proof cases
    case 1
    then show ?thesis by auto
  next
    case 2
    from Cons.IH [OF this] show ?thesis by auto
  qed
qed

lemma GetPipeSets_rows:
  "row \<in> set (GetPipeSets fg commits getStyle) \<Longrightarrow>
   \<exists>prevPipes commit. commit \<in> set commits \<and> row = getNextPipes prevPipes commit getStyle"
  by (auto simp: GetPipeSets_def dest: mapPipes_rows split: if_splits)

lemma scan_commitPos:
  "list_all (atLane lane) row \<Longrightarrow>
   fst (snd (foldl scanStep (m, c, n) row))
     = (if \<exists>pipe\<in>set row. kind pipe \<noteq> CONTINUES then lane else c)"
proof (induction row arbitrary: m c n)
  case Nil
  then show ?case by simp
next
  case (Cons p ps)
  then show ?case
    by (cases "kind p") (auto simp: scanStep_def atLane_def Let_def)
qed

text \<open>
  C9. Every row of \<open>GetPipeSets\<close> has a \<open>STARTS\<close> pipe, and there is one lane that is the
  source lane of all its \<open>STARTS\<close> pipes and the destination lane of all its \<open>TERMINATES\<close>
  pipes; the scan at the head of \<open>renderPipeSet\<close> finds that lane as the commit position.
  (An empty commit list has no rows.)
\<close>

theorem GetPipeSets_commit_lane:
  assumes "row \<in> set (GetPipeSets fg commits getStyle)"
  shows "\<exists>lane. (\<exists>pipe\<in>set row. kind pipe = STARTS) \<and>
           (\<forall>pipe\<in>set row. kind pipe = STARTS \<longrightarrow> fromPos pipe = lane) \<and>
           (\<forall>pipe\<in>set row. kind pipe = TERMINATES \<longrightarrow> toPos pipe = lane) \<and>
           fst (snd (scanPipes row)) = lane"
proof -
  from assms obtain prevPipes commit
    where row: "row = getNextPipes prevPipes commit getStyle"
    by (blast dest: GetPipeSets_rows)
  define lane where "lane = commitLane prevPipes commit"
  have all: "list_all (atLane lane) row"
    using buildPipes_atLane [of prevPipes commit getStyle]
    by (simp add: row lane_def list_all_iff set_getNextPipes)
  have first: "firstPipe commit getStyle lane \<in> set row"
    by (simp add: row lane_def set_getNextPipes buildPipes_firstPipe)
  then have starts: "\<exists>pipe\<in>set row. kind pipe = STARTS"
    by (blast intro: firstPipe_simps)
  then have "\<exists>pipe\<in>set row. kind pipe \<noteq> CONTINUES"
    by force
  with all have "fst (snd (scanPipes row)) = lane"
    unfolding scanPipes_def by (simp add: scan_commitPos)
  with all starts show ?thesis
    by (auto simp: list_all_iff atLane_def)
qed

lemma linearChain_unit_rows:
  "GetPipeSets () linearChain plainStyle =
   [[\<lparr>fromPos = 0, toPos = 0, fromHash = ''START'', toHash = ''C3'',
      kind = TERMINATES, style = ()\<rparr>,
     \<lparr>fromPos = 0, toPos = 0, fromHash = ''C3'', toHash = ''C2'',
      kind = STARTS, style = ()\<rparr>],
    [\<lparr>fromPos = 0, toPos = 0, fromHash = ''C3'', toHash = ''C2'',
      kind = TERMINATES, style = ()\<rparr>,
     \<lparr>fromPos = 0, toPos = 0, fromHash = ''C2'', toHash = ''C1'',
      kind = STARTS, style = ()\<rparr>],
    [\<lparr>fromPos = 0, toPos = 0, fromHash = ''C2'', toHash = ''C1'',
      kind = TERMINATES, style = ()\<rparr>,
     \<lparr>fromPos = 0, toPos = 0, fromHash = ''C1'', toHash = EmptyTreeCommitHash,
      kind = STARTS, style = ()\<rparr>]]"
  by code_simp

theorem GetPipeSets_commit_lane_witness:
  "chainRow0 \<in> set (GetPipeSets () linearChain plainStyle) \<and>
   (\<exists>lane. (\<exists>pipe\<in>set chainRow0. kind pipe = STARTS) \<and>
           (\<forall>pipe\<in>set chainRow0. kind pipe = STARTS \<longrightarrow> fromPos pipe = lane) \<and>
           (\<forall>pipe\<in>set chainRow0. kind pipe = TERMINATES \<longrightarrow> toPos pipe = lane) \<and>
           fst (snd (scanPipes chainRow0)) = lane)"
proof -
  have m: "chainRow0 \<in> set (GetPipeSets () linearChain plainStyle)"
    by (simp add: linearChain_unit_rows chainRow0_def)
  from m GetPipeSets_commit_lane [OF m] show ?thesis
    by blast
qed

section \<open>The chunks of \<open>RenderAux\<close>\<close>

lemma those_append:
  "those (xs @ ys) = (case those xs of None \<Rightarrow> None | Some a \<Rightarrow> map_option ((@) a) (those ys))"
proof (induction xs)
  case Nil
  show ?case by (cases "those ys") simp_all
next
  case (Cons x xs)
  then show ?case
    by (cases x; cases "those xs"; cases "those ys") simp_all
qed

lemma those_concat:
  "map_option concat (those (map (\<lambda>i. those (map g (c i))) js))
     = those (map g (concat (map c js)))"
proof (induction js)
  case Nil
  then show ?case by simp
next
  case (Cons j js)
  show ?case
  proof (cases "those (map g (c j))")
    case None
    then show ?thesis by (simp add: those_append)
  next
    case (Some a)
    with Cons.IH [symmetric] show ?thesis
      by (simp add: those_append option.map_comp comp_def)
  qed
qed

lemma enumerate_slice:
  assumes "from \<le> to" "to \<le> length ps"
  shows "map (\<lambda>(j, x). f (from + j) x) (enumerate 0 (take (to - from) (drop from ps)))
           = map (\<lambda>k. f k (ps ! k)) [from..<to]"
proof (rule nth_equalityI)
  show "length (map (\<lambda>(j, x). f (from + j) x) (enumerate 0 (take (to - from) (drop from ps))))
          = length (map (\<lambda>k. f k (ps ! k)) [from..<to])"
    using assms by simp
next
  fix i
  assume "i < length (map (\<lambda>(j, x). f (from + j) x) (enumerate 0 (take (to - from) (drop from ps))))"
  with assms have i: "i < to - from"
    by simp
  with assms show "map (\<lambda>(j, x). f (from + j) x) (enumerate 0 (take (to - from) (drop from ps))) ! i
          = map (\<lambda>k. f k (ps ! k)) [from..<to] ! i"
    by (simp add: nth_enumerate_eq)
qed

lemma renderChunk_eq:
  assumes "from \<le> to" "to \<le> length pipeSets"
  shows "renderChunk ext pipeSets commits sel from to
           = those (map (\<lambda>k. renderLine ext commits sel k (pipeSets ! k)) [from..<to])"
  using assms enumerate_slice [OF assms, of "renderLine ext commits sel"]
  by (simp add: renderChunk_def)

lemma full_chunks: "concat (map (\<lambda>i. [i * p..<(i + 1) * p]) [0..<m]) = [0..<m * p]"
proof (induction m)
  case 0
  then show ?case by simp
next
  case (Suc m)
  have "[0..<m * p] @ [m * p..<(m + 1) * p] = [0..<(m + 1) * p]"
    by (metis Suc_eq_plus1 le_add2 mult_Suc upt_add_eq_append zero_le add.commute)
  with Suc show ?case
    by simp
qed

lemma chunks_cover:
  fixes n len :: nat
  assumes "0 < n"
  defines "p \<equiv> len div n"
  shows "concat (map (\<lambda>i. [i * p..<(if i = n - 1 then len else (i + 1) * p)]) [0..<n]) = [0..<len]"
proof -
  from assms obtain m where n: "n = Suc m"
    by (cases n) auto
  have le: "m * p \<le> len"
  proof -
    have "m * p \<le> n * p" by (simp add: n)
    also have "\<dots> \<le> len" by (simp add: p_def)
    finally show ?thesis .
  qed
  have "map (\<lambda>i. [i * p..<(if i = n - 1 then len else (i + 1) * p)]) [0..<m]
          = map (\<lambda>i. [i * p..<(i + 1) * p]) [0..<m]"
    by (rule map_cong) (auto simp: n)
  then have "concat (map (\<lambda>i. [i * p..<(if i = n - 1 then len else (i + 1) * p)]) [0..<m])
          = [0..<m * p]"
    by (simp only: full_chunks)
  then have "concat (map (\<lambda>i. [i * p..<(if i = n - 1 then len else (i + 1) * p)]) [0..<n])
          = [0..<m * p] @ [m * p..<len]"
    by (simp add: n)
  also have "\<dots> = [0..<len]"
    using le by (metis le_add_diff_inverse upt_add_eq_append zero_le)
  finally show ?thesis .
qed

lemma RenderAux_sequential:
  assumes "0 < maxProcs"
  shows "RenderAux ext maxProcs pipeSets commits sel
           = those (map (\<lambda>k. renderLine ext commits sel k (pipeSets ! k)) [0..<length pipeSets])"
proof -
  define len where "len = length pipeSets"
  define p where "p = len div maxProcs"
  define g where "g = (\<lambda>k. renderLine ext commits sel k (pipeSets ! k))"
  define hi where "hi = (\<lambda>i. if i = maxProcs - 1 then len else (i + 1) * p)"
  have bounds: "i * p \<le> hi i \<and> hi i \<le> len" if "i < maxProcs" for i
  proof (cases "i = maxProcs - 1")
    case True
    have "i * p \<le> maxProcs * p" using that by simp
    also have "\<dots> \<le> len" by (simp add: p_def)
    finally show ?thesis by (simp add: hi_def True)
  next
    case False
    with that have "i + 1 \<le> maxProcs" by simp
    then have "(i + 1) * p \<le> maxProcs * p" by (rule mult_le_mono1)
    also have "\<dots> \<le> len" by (simp add: p_def)
    finally show ?thesis using False by (simp add: hi_def)
  qed
  have chunks: "map (\<lambda>i. renderChunk ext pipeSets commits sel (i * p) (hi i)) [0..<maxProcs]
          = map (\<lambda>i. those (map g [i * p..<hi i])) [0..<maxProcs]"
    by (rule map_cong) (use bounds in \<open>auto simp: renderChunk_eq len_def g_def\<close>)
  have "RenderAux ext maxProcs pipeSets commits sel
          = map_option concat
              (those (map (\<lambda>i. renderChunk ext pipeSets commits sel (i * p) (hi i)) [0..<maxProcs]))"
    unfolding RenderAux_def Let_def hi_def p_def len_def using assms by simp
  also have "\<dots> = map_option concat
              (those (map (\<lambda>i. those (map g [i * p..<hi i])) [0..<maxProcs]))"
    by (simp only: chunks)
  also have "\<dots> = those (map g (concat (map (\<lambda>i. [i * p..<hi i]) [0..<maxProcs])))"
    by (rule those_concat)
  also have "concat (map (\<lambda>i. [i * p..<hi i]) [0..<maxProcs]) = [0..<len]"
    unfolding hi_def p_def using assms by (rule chunks_cover)
  finally show ?thesis
    by (simp add: g_def len_def)
qed

section \<open>Lanes are not negative\<close>

lemma nextAvailablePosForContinuingPipe_ge:
  "i \<le> nextAvailablePosForContinuingPipe traversed i"
proof (induction traversed i rule: nextAvailablePosForContinuingPipe.induct)
  case (1 traversed i)
  then show ?case
    by (subst nextAvailablePosForContinuingPipe.simps) auto
qed

lemma nextAvailablePosForNewPipe_ge:
  "i \<le> nextAvailablePosForNewPipe taken tfc i"
proof (induction taken tfc i rule: nextAvailablePosForNewPipe.induct)
  case (1 taken tfc i)
  then show ?case
    by (subst nextAvailablePosForNewPipe.simps) auto
qed

lemma slideLeft_nonneg:
  "0 \<le> lastPos \<Longrightarrow> 0 \<le> pos \<Longrightarrow> 0 \<le> slideLeft taken traversed pos i lastPos"
proof (induction taken traversed pos i lastPos rule: slideLeft.induct)
  case (1 taken traversed pos i lastPos)
  then show ?case
    by (subst slideLeft.simps) auto
qed

lemma stepLeft_nonneg:
  "0 \<le> pos \<Longrightarrow> 0 \<le> toPos pipe \<Longrightarrow> list_all nonneg (newPipes st) \<Longrightarrow>
   list_all nonneg (newPipes (stepLeft commit pos st pipe))"
  using nextAvailablePosForContinuingPipe_ge [of 0 "traversedSpots st"]
  by (simp add: stepLeft_def traverse_def appendPipe_def Let_def nonneg_def
      getNextAvailablePosForContinuingPipe_def)

lemma stepParent_nonneg:
  "0 \<le> pos \<Longrightarrow> list_all nonneg (newPipes st) \<Longrightarrow>
   list_all nonneg (newPipes (stepParent commit getStyle pos tfc st parent))"
  using nextAvailablePosForNewPipe_ge [of 0 "takenSpots st" tfc]
  by (simp add: stepParent_def appendPipe_def Let_def nonneg_def getNextAvailablePosForNewPipe_def)

lemma stepRight_nonneg:
  "0 \<le> pos \<Longrightarrow> 0 \<le> toPos pipe \<Longrightarrow> list_all nonneg (newPipes st) \<Longrightarrow>
   list_all nonneg (newPipes (stepRight commit pos st pipe))"
  by (simp add: stepRight_def traverse_def appendPipe_def Let_def nonneg_def slideLeft_nonneg)

lemma maxToPos_nonneg: "0 \<le> maxToPos prevPipes"
proof -
  have "0 \<le> m \<Longrightarrow>
        0 \<le> foldl (\<lambda>maxPos pipe. if toPos pipe > maxPos then toPos pipe else maxPos) m prevPipes"
    for m
    by (induction prevPipes arbitrary: m) auto
  then show ?thesis
    by (simp add: maxToPos_def)
qed

lemma findPos_nonneg:
  "0 \<le> pos \<Longrightarrow> \<forall>pipe\<in>set pipes. 0 \<le> toPos pipe \<Longrightarrow> 0 \<le> findPos pos hash pipes"
  by (induction pipes) auto

lemma commitLane_nonneg:
  "\<forall>pipe\<in>set prevPipes. 0 \<le> toPos pipe \<Longrightarrow> 0 \<le> commitLane prevPipes commit"
  unfolding commitLane_def using maxToPos_nonneg [of prevPipes]
  by (intro findPos_nonneg) auto

lemma buildPipes_nonneg:
  assumes "\<forall>pipe\<in>set prevPipes. 0 \<le> toPos pipe"
  shows "list_all nonneg (newPipes (buildPipes prevPipes commit getStyle))"
proof -
  define pos where "pos = commitLane prevPipes commit"
  define current where "current = filter (\<lambda>pipe. kind pipe \<noteq> TERMINATES) prevPipes"
  have pos: "0 \<le> pos"
    unfolding pos_def using assms by (rule commitLane_nonneg)
  have cur: "0 \<le> toPos pipe" if "pipe \<in> set current" for pipe
    using that assms by (simp add: current_def)
  define st0 :: "'a Lanes"
    where "st0 = \<lparr>newPipes = [firstPipe commit getStyle pos], takenSpots = [], traversedSpots = []\<rparr>"
  define st1 where "st1 = foldl (stepLeft commit pos) st0 current"
  let ?I = "\<lambda>st. list_all nonneg (newPipes st)"
  have "?I st0"
    using pos by (simp add: st0_def nonneg_def firstPipe_simps)
  then have 1: "?I st1"
    unfolding st1_def
    by (rule foldl_invariant) (use pos cur in \<open>auto intro: stepLeft_nonneg\<close>)
  have 2: "?I (foldl (stepParent commit getStyle pos tfc) st1 parents)" for tfc parents
    using 1 by (rule foldl_invariant) (use pos in \<open>auto intro: stepParent_nonneg\<close>)
  have 3: "?I (foldl (stepRight commit pos) st current)" if "?I st" for st
    using that by (rule foldl_invariant) (use pos cur in \<open>auto intro: stepRight_nonneg\<close>)
  have "buildPipes prevPipes commit getStyle =
          foldl (stepRight commit pos)
            (if IsMerge commit
             then foldl (stepParent commit getStyle pos
                    (map toPos (filter (\<lambda>pipe. \<not> equalHashes (toHash pipe) (Hash commit)) current)))
                    st1 (drop 1 (Parents commit))
             else st1) current"
    by (simp add: buildPipes_def Let_def pos_def commitLane_def current_def st1_def st0_def)
  with 1 2 3 show ?thesis
    by simp
qed

lemma getNextPipes_nonneg:
  "\<forall>pipe\<in>set prevPipes. 0 \<le> toPos pipe \<Longrightarrow>
   list_all nonneg (getNextPipes prevPipes commit getStyle)"
  using buildPipes_nonneg [of prevPipes commit getStyle]
  by (simp add: list_all_iff set_getNextPipes)

lemma mapPipes_nonneg:
  "\<forall>pipe\<in>set pipes. 0 \<le> toPos pipe \<Longrightarrow> row \<in> set (mapPipes pipes getStyle commits) \<Longrightarrow>
   list_all nonneg row"
proof (induction commits arbitrary: pipes)
  case Nil
  then show ?case by simp
next
  case (Cons c cs)
  have next_ok: "list_all nonneg (getNextPipes pipes c getStyle)"
    using Cons.prems(1) by (rule getNextPipes_nonneg)
  from Cons.prems(2) consider "row = getNextPipes pipes c getStyle"
    | "row \<in> set (mapPipes (getNextPipes pipes c getStyle) getStyle cs)"
    by (auto simp: Let_def)
  then show ?case
  proof cases
    case 1
    with next_ok show ?thesis by simp
  next
    case 2
    from next_ok have "\<forall>pipe\<in>set (getNextPipes pipes c getStyle). 0 \<le> toPos pipe"
      by (simp add: list_all_iff nonneg_def)
    from Cons.IH [OF this 2] show ?thesis .
  qed
qed

lemma GetPipeSets_nonneg:
  "row \<in> set (GetPipeSets fg commits getStyle) \<Longrightarrow> list_all nonneg row"
  by (auto simp: GetPipeSets_def split: if_splits intro: mapPipes_nonneg [rotated])

lemma length_mapPipes: "length (mapPipes pipes getStyle commits) = length commits"
  by (induction commits arbitrary: pipes) (auto simp: Let_def)

lemma length_GetPipeSets: "length (GetPipeSets fg commits getStyle) = length commits"
  by (simp add: GetPipeSets_def length_mapPipes)

lemma mapPipes_nth:
  "i < length commits \<Longrightarrow>
   \<exists>prevPipes. mapPipes pipes getStyle commits ! i = getNextPipes prevPipes (commits ! i) getStyle"
proof (induction commits arbitrary: pipes i)
  case Nil
  then show ?case by simp
next
  case (Cons c cs)
  show ?case
  proof (cases i)
    case 0
    then show ?thesis by (auto simp: Let_def)
  next
    case (Suc j)
    with Cons.prems have "j < length cs" by simp
    from Cons.IH [OF this, of "getNextPipes pipes c getStyle"] Suc show ?thesis
      by (simp add: Let_def)
  qed
qed

lemma GetPipeSets_nth:
  "i < length commits \<Longrightarrow>
   \<exists>prevPipes. GetPipeSets fg commits getStyle ! i = getNextPipes prevPipes (commits ! i) getStyle"
  by (auto simp: GetPipeSets_def intro: mapPipes_nth)

section \<open>Rendering a row of \<open>GetPipeSets\<close> does not panic\<close>

lemma modifyCell_ok:
  "0 \<le> i \<Longrightarrow> i < int (length cells) \<Longrightarrow>
   \<exists>cells'. modifyCell m i cells = Some cells' \<and> length cells' = length cells"
  by (simp add: modifyCell_def)

lemma forEach_ok:
  assumes "I s" and "\<And>x s. x \<in> set xs \<Longrightarrow> I s \<Longrightarrow> \<exists>s'. body x s = Some s' \<and> I s'"
  shows "\<exists>s'. forEach body xs s = Some s' \<and> I s'"
  using assms
proof (induction xs arbitrary: s)
  case Nil
  then show ?case by simp
next
  case (Cons x xs)
  from Cons.prems obtain s1 where s1: "body x s = Some s1" "I s1"
    by (meson list.set_intros(1))
  from Cons.IH [OF s1(2)] Cons.prems(2) obtain s' where "forEach body xs s1 = Some s'" "I s'"
    by (meson list.set_intros(2))
  with s1 show ?case by simp
qed

lemma span_ok:
  assumes "inRange n pipe" "length cells = n"
  shows "\<exists>cells'. forEach (modifyCell m) [left pipe + 1..right pipe - 1] cells = Some cells' \<and>
           length cells' = n"
    and "\<exists>cells'. forEach (modifyCell m) [left pipe..right pipe] cells = Some cells' \<and>
           length cells' = n"
proof -
  have lr: "0 \<le> left pipe" "right pipe < int n"
    using assms(1) by (auto simp: inRange_def left_def right_def)
  show "\<exists>cells'. forEach (modifyCell m) [left pipe + 1..right pipe - 1] cells = Some cells' \<and>
           length cells' = n"
    using assms(2)
    by (rule forEach_ok [where I = "\<lambda>cs. length cs = n"])
       (use lr in \<open>auto intro!: modifyCell_ok [where cells = cs for cs, simplified]\<close>)
  show "\<exists>cells'. forEach (modifyCell m) [left pipe..right pipe] cells = Some cells' \<and>
           length cells' = n"
    using assms(2)
    by (rule forEach_ok [where I = "\<lambda>cs. length cs = n"])
       (use lr in \<open>auto intro!: modifyCell_ok [where cells = cs for cs, simplified]\<close>)
qed

lemma renderPipe_ok:
  assumes "inRange n pipe" "length cells = n"
  shows "\<exists>cells'. renderPipe ext pipe sty ov cells = Some cells' \<and> length cells' = n"
proof -
  have lr: "0 \<le> left pipe" "left pipe < int n" "0 \<le> right pipe" "right pipe < int n"
    and ft: "0 \<le> fromPos pipe" "fromPos pipe < int n" "0 \<le> toPos pipe" "toPos pipe < int n"
    using assms(1) by (auto simp: inRange_def left_def right_def)
  obtain c1 where c1:
    "(if left pipe \<noteq> right pipe then
        do {
          cs \<leftarrow> forEach (modifyCell (\<lambda>c. setRight ext sty ov (setLeft ext sty c)))
                 [left pipe + 1..right pipe - 1] cells;
          cs' \<leftarrow> modifyCell (setRight ext sty ov) (left pipe) cs;
          modifyCell (setLeft ext sty) (right pipe) cs'
        }
      else Some cells) = Some c1" "length c1 = n"
  proof (cases "left pipe \<noteq> right pipe")
    case True
    from span_ok(1) [OF assms] obtain cs where cs:
      "forEach (modifyCell (\<lambda>c. setRight ext sty ov (setLeft ext sty c)))
         [left pipe + 1..right pipe - 1] cells = Some cs" "length cs = n"
      by blast
    from modifyCell_ok [of "left pipe" cs] lr cs obtain cs' where cs':
      "modifyCell (setRight ext sty ov) (left pipe) cs = Some cs'" "length cs' = n"
      by auto
    from modifyCell_ok [of "right pipe" cs'] lr cs' obtain cs'' where
      "modifyCell (setLeft ext sty) (right pipe) cs' = Some cs''" "length cs'' = n"
      by auto
    with True cs cs' that show ?thesis
      by simp
  next
    case False
    with assms(2) that show ?thesis by simp
  qed
  obtain c2 where c2:
    "(if kind pipe = STARTS \<or> kind pipe = CONTINUES
      then modifyCell (setDown ext sty) (toPos pipe) c1 else Some c1) = Some c2" "length c2 = n"
    using modifyCell_ok [of "toPos pipe" c1 "setDown ext sty"] ft c1(2)
    by (cases "kind pipe = STARTS \<or> kind pipe = CONTINUES") auto
  obtain c3 where c3:
    "(if kind pipe = TERMINATES \<or> kind pipe = CONTINUES
      then modifyCell (setUp ext sty) (fromPos pipe) c2 else Some c2) = Some c3" "length c3 = n"
    using modifyCell_ok [of "fromPos pipe" c2 "setUp ext sty"] ft c2(2)
    by (cases "kind pipe = TERMINATES \<or> kind pipe = CONTINUES") auto
  from c1 c2 c3 show ?thesis
    by (simp add: renderPipe_def Let_def)
qed

lemma scan_bounds:
  assumes "foldl scanStep (m, c, n) pipes = (m', c', n')"
  shows "m \<le> m' \<and> (\<forall>pipe\<in>set pipes. right pipe \<le> m') \<and>
         (c' = c \<or> (\<exists>pipe\<in>set pipes. c' = fromPos pipe \<or> c' = toPos pipe))"
  using assms
proof (induction pipes arbitrary: m c n)
  case Nil
  then show ?case by simp
next
  case (Cons p ps)
  obtain m1 c1 n1 where step: "scanStep (m, c, n) p = (m1, c1, n1)"
    by (cases "scanStep (m, c, n) p") auto
  then have m1: "m \<le> m1" "right p \<le> m1" and c1: "c1 = c \<or> c1 = fromPos p \<or> c1 = toPos p"
    by (auto simp: scanStep_def Let_def split: if_splits)
  from Cons.prems step have "foldl scanStep (m1, c1, n1) ps = (m', c', n')"
    by simp
  from Cons.IH [OF this] m1 c1 show ?case
    by auto
qed

lemma scanPipes_inRange:
  assumes "list_all nonneg pipes" "scanPipes pipes = (maxPos, commitPos, startCount)"
  shows "0 \<le> maxPos" "0 \<le> commitPos" "commitPos \<le> maxPos"
    "\<forall>pipe\<in>set pipes. inRange (nat (maxPos + 1)) pipe"
proof -
  from assms(2) have b: "0 \<le> maxPos" "\<forall>pipe\<in>set pipes. right pipe \<le> maxPos"
    "commitPos = 0 \<or> (\<exists>pipe\<in>set pipes. commitPos = fromPos pipe \<or> commitPos = toPos pipe)"
    using scan_bounds [of 0 0 0 pipes maxPos commitPos startCount]
    by (simp_all add: scanPipes_def)
  show "0 \<le> maxPos" by fact
  from assms(1) have nn: "\<forall>pipe\<in>set pipes. 0 \<le> fromPos pipe \<and> 0 \<le> toPos pipe"
    by (simp add: list_all_iff nonneg_def)
  from b(2) have le: "\<forall>pipe\<in>set pipes. fromPos pipe \<le> maxPos \<and> toPos pipe \<le> maxPos"
    by (auto simp: right_def)
  from b(3) nn show "0 \<le> commitPos" by auto
  from b(1,3) le show "commitPos \<le> maxPos" by auto
  from nn le b(1) show "\<forall>pipe\<in>set pipes. inRange (nat (maxPos + 1)) pipe"
    by (auto simp: inRange_def)
qed

lemma renderPipeSet_ok:
  fixes ext :: "('c, 's) Cells" and pipes :: "'s Pipe list"
  assumes "list_all nonneg pipes"
  shows "\<exists>line. renderPipeSet ext pipes sel prevCommit = Some line"
proof -
  obtain maxPos commitPos startCount
    where scan: "scanPipes pipes = (maxPos, commitPos, startCount)"
    by (cases "scanPipes pipes") auto
  define n where "n = nat (maxPos + 1)"
  note b = scanPipes_inRange [OF assms scan]
  have fits: "inRange n pipe" if "pipe \<in> set pipes" for pipe
    using b(4) that by (simp add: n_def)
  have cp: "0 \<le> commitPos" "commitPos < int n"
    using b(1-3) by (simp_all add: n_def)
  define cells0 where "cells0 = map (\<lambda>i. newCell ext CONNECTION (FgDefault ext)) [0..maxPos]"
  have len0: "length cells0 = n"
    using b(1) by (simp add: cells0_def n_def)
  define highlight where "highlight =
             (case prevCommit of
                None \<Rightarrow> True
              | Some prev \<Rightarrow>
                  (if equalHashes (Hash prev) sel
                   then list_ex (\<lambda>pipe. equalHashes (fromHash pipe) sel \<and>
                                  (kind pipe \<noteq> TERMINATES \<or> fromPos pipe \<noteq> toPos pipe)) pipes
                   else True))"
  define selectedPipes
    where "selectedPipes = filter (\<lambda>pipe. highlight \<and> equalHashes (fromHash pipe) sel) pipes"
  define nonSelectedPipes
    where "nonSelectedPipes
             = filter (\<lambda>pipe. \<not> (highlight \<and> equalHashes (fromHash pipe) sel)) pipes"
  have sel_fits: "inRange n pipe" if "pipe \<in> set selectedPipes" for pipe
    using that by (simp add: selectedPipes_def fits)
  have non_fits: "inRange n pipe" if "pipe \<in> set nonSelectedPipes" for pipe
    using that by (simp add: nonSelectedPipes_def fits)
  let ?I = "\<lambda>cells. length cells = n"
  define body1 where "body1 = (\<lambda>pipe cells. if kind pipe = STARTS
              then renderPipe ext pipe (style pipe) True cells else Some cells)"
  define body2 where "body2 = (\<lambda>pipe cells.
              if kind pipe \<noteq> STARTS \<and>
                 \<not> (kind pipe = TERMINATES \<and> fromPos pipe = commitPos \<and> toPos pipe = commitPos)
              then renderPipe ext pipe (style pipe) False cells else Some cells)"
  define body3 :: "'s Pipe \<Rightarrow> 'c list \<Rightarrow> 'c list option"
    where "body3 = (\<lambda>pipe. forEach (modifyCell (reset ext)) [left pipe..right pipe])"
  define body4 where "body4 = (\<lambda>pipe cells. do {
              cs \<leftarrow> renderPipe ext pipe (highlightStyle ext) True cells;
              (if toPos pipe = commitPos
               then modifyCell (setStyle ext (highlightStyle ext)) (toPos pipe) cs
               else Some cs)
            })"
  have step1: "\<exists>cells'. body1 pipe cells = Some cells' \<and> ?I cells'"
    if "pipe \<in> set nonSelectedPipes" "?I cells" for pipe cells
    using renderPipe_ok [OF non_fits [OF that(1)] that(2)] that(2)
    by (simp add: body1_def)
  have step2: "\<exists>cells'. body2 pipe cells = Some cells' \<and> ?I cells'"
    if "pipe \<in> set nonSelectedPipes" "?I cells" for pipe cells
    using renderPipe_ok [OF non_fits [OF that(1)] that(2)] that(2)
    by (simp add: body2_def)
  have step3: "\<exists>cells'. body3 pipe cells = Some cells' \<and> ?I cells'"
    if "pipe \<in> set selectedPipes" "?I cells" for pipe cells
    using span_ok(2) [OF sel_fits [OF that(1)] that(2)]
    by (simp add: body3_def)
  obtain cells1 where c1: "forEach body1 nonSelectedPipes cells0 = Some cells1" "?I cells1"
    using forEach_ok [of ?I cells0 nonSelectedPipes body1, OF len0 step1] by blast
  obtain cells2 where c2: "forEach body2 nonSelectedPipes cells1 = Some cells2" "?I cells2"
    using forEach_ok [of ?I cells1 nonSelectedPipes body2, OF c1(2) step2] by blast
  obtain cells3 where c3: "forEach body3 selectedPipes cells2 = Some cells3" "?I cells3"
    using forEach_ok [of ?I cells2 selectedPipes body3, OF c2(2) step3] by blast
  have step4: "\<exists>cells'. body4 pipe cells = Some cells' \<and> ?I cells'"
    if "pipe \<in> set selectedPipes" "?I cells" for pipe cells
  proof -
    from renderPipe_ok [OF sel_fits [OF that(1)] that(2)]
    obtain cs where cs: "renderPipe ext pipe (highlightStyle ext) True cells = Some cs" "?I cs"
      by blast
    from sel_fits [OF that(1)] have "0 \<le> toPos pipe" "toPos pipe < int n"
      by (simp_all add: inRange_def)
    with cs(2) modifyCell_ok [of "toPos pipe" cs "setStyle ext (highlightStyle ext)"]
    obtain cs' where "modifyCell (setStyle ext (highlightStyle ext)) (toPos pipe) cs = Some cs'"
      "?I cs'"
      by auto
    with cs show ?thesis
      by (cases "toPos pipe = commitPos") (auto simp: body4_def)
  qed
  obtain cells4 where c4: "forEach body4 selectedPipes cells3 = Some cells4" "?I cells4"
    using forEach_ok [of ?I cells3 selectedPipes body4, OF c3(2) step4] by blast
  obtain cells5 where c5:
    "modifyCell (setType ext (if startCount > 1 then MERGE else COMMIT)) commitPos cells4
       = Some cells5"
    using modifyCell_ok [of commitPos cells4] cp c4(2) by blast
  have "renderPipeSet ext pipes sel prevCommit = Some (concat (map (render ext) cells5))"
    unfolding renderPipeSet_def scan Let_def Partition_def prod.case
      highlight_def [symmetric] selectedPipes_def [symmetric] nonSelectedPipes_def [symmetric]
      cells0_def [symmetric] body1_def [symmetric] body2_def [symmetric] body3_def [symmetric]
      body4_def [symmetric]
    using c5 by (cases "startCount > 1") (simp_all add: c1 c2 c3 c4)
  then show ?thesis
    by blast
qed

lemma those_Some_nth:
  "those xs = Some ys \<Longrightarrow> length ys = length xs \<and> (\<forall>i<length xs. xs ! i = Some (ys ! i))"
proof (induction xs arbitrary: ys)
  case Nil
  then show ?case by simp
next
  case (Cons x xs)
  from Cons.prems obtain y zs where x: "x = Some y" and zs: "those xs = Some zs" and ys: "ys = y # zs"
    by (auto split: option.splits)
  from Cons.IH [OF zs] x ys show ?case
    by (auto simp: nth_Cons split: nat.splits)
qed

lemma those_all_Some:
  "\<forall>x\<in>set xs. \<exists>y. x = Some y \<Longrightarrow> \<exists>ys. those xs = Some ys"
  by (induction xs) auto

lemma renderLine_Some:
  "renderLine ext commits sel k pipeSet = Some line \<Longrightarrow>
   renderPipeSet ext pipeSet sel (if k = 0 then None else Some (commits ! (k - 1))) = Some line"
  by (auto simp: renderLine_def split: if_splits)

section \<open>The rendered lines\<close>

lemma RenderAux_lines:
  assumes "0 < maxProcs" "RenderAux ext maxProcs pipeSets commits sel = Some lines"
  shows "length lines = length pipeSets"
    and "i < length pipeSets \<Longrightarrow>
         renderPipeSet ext (pipeSets ! i) sel (if i = 0 then None else Some (commits ! (i - 1)))
           = Some (lines ! i)"
proof -
  from assms have th: "those (map (\<lambda>k. renderLine ext commits sel k (pipeSets ! k))
                          [0..<length pipeSets]) = Some lines"
    by (simp add: RenderAux_sequential)
  from those_Some_nth [OF th] show "length lines = length pipeSets"
    by simp
  assume "i < length pipeSets"
  with those_Some_nth [OF th] have "renderLine ext commits sel i (pipeSets ! i) = Some (lines ! i)"
    by simp
  then show "renderPipeSet ext (pipeSets ! i) sel (if i = 0 then None else Some (commits ! (i - 1)))
           = Some (lines ! i)"
    by (rule renderLine_Some)
qed

text \<open>
  C3. For every worker count of at least 1, \<open>RenderAux\<close> returns the lines of the rows in
  order, line \<open>i\<close> being \<open>renderPipeSet\<close> of row \<open>i\<close> with commit \<open>i - 1\<close> as the previous
  commit (none for row 0); it fails exactly when rendering one of these lines fails. So
  the result is that of a single worker. The function is a function of its arguments:
  equal arguments give equal lines.
\<close>

theorem RenderAux_chunked_is_sequential:
  assumes "1 \<le> maxProcs"
  shows "RenderAux ext maxProcs pipeSets commits sel
           = those (map (\<lambda>i. renderLine ext commits sel i (pipeSets ! i)) [0..<length pipeSets]) \<and>
         RenderAux ext maxProcs pipeSets commits sel = RenderAux ext 1 pipeSets commits sel \<and>
         (\<forall>lines. RenderAux ext maxProcs pipeSets commits sel = Some lines \<longrightarrow>
            length lines = length pipeSets \<and>
            (\<forall>i<length pipeSets.
               renderPipeSet ext (pipeSets ! i) sel
                 (if i = 0 then None else Some (commits ! (i - 1))) = Some (lines ! i))) \<and>
         ((\<forall>i<length pipeSets. \<exists>line. renderLine ext commits sel i (pipeSets ! i) = Some line)
            \<longrightarrow> (\<exists>lines. RenderAux ext maxProcs pipeSets commits sel = Some lines))"
proof -
  from assms have pos: "0 < maxProcs"
    by simp
  have seq: "RenderAux ext maxProcs pipeSets commits sel
           = those (map (\<lambda>i. renderLine ext commits sel i (pipeSets ! i)) [0..<length pipeSets])"
    using pos by (rule RenderAux_sequential)
  moreover have "RenderAux ext 1 pipeSets commits sel
           = those (map (\<lambda>i. renderLine ext commits sel i (pipeSets ! i)) [0..<length pipeSets])"
    by (rule RenderAux_sequential) simp
  ultimately have eqs: "RenderAux ext maxProcs pipeSets commits sel
           = those (map (\<lambda>i. renderLine ext commits sel i (pipeSets ! i)) [0..<length pipeSets]) \<and>
         RenderAux ext maxProcs pipeSets commits sel = RenderAux ext 1 pipeSets commits sel"
    by simp
  have "length lines = length pipeSets \<and>
            (\<forall>i<length pipeSets.
               renderPipeSet ext (pipeSets ! i) sel
                 (if i = 0 then None else Some (commits ! (i - 1))) = Some (lines ! i))"
    if "RenderAux ext maxProcs pipeSets commits sel = Some lines" for lines
    using RenderAux_lines [OF pos that] by blast
  moreover have "\<exists>lines. RenderAux ext maxProcs pipeSets commits sel = Some lines"
    if "\<forall>i<length pipeSets. \<exists>line. renderLine ext commits sel i (pipeSets ! i) = Some line"
  proof -
    from that
    have "\<forall>x\<in>set (map (\<lambda>i. renderLine ext commits sel i (pipeSets ! i)) [0..<length pipeSets]).
            \<exists>y. x = Some y"
      by auto
    then show ?thesis
      unfolding seq by (rule those_all_Some)
  qed
  ultimately show ?thesis
    using eqs by blast
qed

theorem RenderAux_chunked_is_sequential_witness:
  "1 \<le> (2::nat) \<and>
   RenderAux traceCells 2 (GetPipeSets () linearChain plainStyle) linearChain ''C2''
     = RenderAux traceCells 1 (GetPipeSets () linearChain plainStyle) linearChain ''C2'' \<and>
   RenderAux traceCells 2 (GetPipeSets () linearChain plainStyle) linearChain ''C2''
     = Some [''.d*'', ''.d*'', ''.d*'']"
proof -
  have one: "RenderAux traceCells 1 (GetPipeSets () linearChain plainStyle) linearChain ''C2''
     = Some [''.d*'', ''.d*'', ''.d*'']"
    by code_simp
  have h: "1 \<le> (2::nat)"
    by simp
  from RenderAux_chunked_is_sequential [OF h, of traceCells "GetPipeSets () linearChain plainStyle"
      linearChain "''C2''"]
  have two: "RenderAux traceCells 2 (GetPipeSets () linearChain plainStyle) linearChain ''C2''
     = RenderAux traceCells 1 (GetPipeSets () linearChain plainStyle) linearChain ''C2''"
    by blast
  from h two show ?thesis
    by (simp only: one simp_thms)
qed

text \<open>
  C4. \<open>RenderCommitGraph\<close> returns the empty list for the empty commit list, and for
  every commit list it returns, without a panic, exactly one line per commit, in the
  order of the commits: line \<open>i\<close> renders row \<open>i\<close> of \<open>GetPipeSets\<close>, the row in which commit
  \<open>i\<close> starts its pipe.
\<close>

theorem RenderCommitGraph_one_line_per_commit:
  "RenderCommitGraph ext maxProcs [] sel getStyle = Some [] \<and>
   (1 \<le> maxProcs \<longrightarrow>
     (\<exists>lines. RenderCommitGraph ext maxProcs commits sel getStyle = Some lines \<and>
        length lines = length commits \<and>
        (\<forall>i<length commits.
           (\<exists>pipe\<in>set (GetPipeSets (FgDefault ext) commits getStyle ! i).
              kind pipe = STARTS \<and> fromHash pipe = Hash (commits ! i)) \<and>
           renderPipeSet ext (GetPipeSets (FgDefault ext) commits getStyle ! i) sel
             (if i = 0 then None else Some (commits ! (i - 1))) = Some (lines ! i))))"
proof (intro conjI impI)
  show "RenderCommitGraph ext maxProcs [] sel getStyle = Some []"
    by (simp add: RenderCommitGraph_def GetPipeSets_def)
next
  assume "1 \<le> maxProcs"
  then have pos: "0 < maxProcs"
    by simp
  define rows where "rows = GetPipeSets (FgDefault ext) commits getStyle"
  have len: "length rows = length commits"
    by (simp add: rows_def length_GetPipeSets)
  have graph: "RenderCommitGraph ext maxProcs commits sel getStyle
                 = those (map (\<lambda>k. renderLine ext commits sel k (rows ! k)) [0..<length rows])"
  proof (cases "commits = []")
    case True
    then show ?thesis
      using len by (simp add: RenderCommitGraph_def GetPipeSets_def)
  next
    case False
    with len have "length rows \<noteq> 0" by simp
    then show ?thesis
      using pos by (simp add: RenderCommitGraph_def rows_def [symmetric] RenderAux_sequential)
  qed
  have line: "\<exists>l. renderLine ext commits sel k (rows ! k) = Some l" if "k < length rows" for k
  proof -
    from that have "rows ! k \<in> set rows" by simp
    then have "list_all nonneg (rows ! k)"
      unfolding rows_def by (rule GetPipeSets_nonneg)
    from renderPipeSet_ok [OF this] that len show ?thesis
      by (auto simp: renderLine_def)
  qed
  then have "\<forall>x\<in>set (map (\<lambda>k. renderLine ext commits sel k (rows ! k)) [0..<length rows]).
               \<exists>y. x = Some y"
    by auto
  then have "\<exists>lines. those (map (\<lambda>k. renderLine ext commits sel k (rows ! k)) [0..<length rows])
                = Some lines"
    by (rule those_all_Some)
  then obtain lines where lines:
    "those (map (\<lambda>k. renderLine ext commits sel k (rows ! k)) [0..<length rows]) = Some lines"
    by blast
  note nth = those_Some_nth [OF lines]
  have starts: "\<exists>pipe\<in>set (rows ! i). kind pipe = STARTS \<and> fromHash pipe = Hash (commits ! i)"
    if "i < length commits" for i
  proof -
    from GetPipeSets_nth [OF that, of "FgDefault ext" getStyle] obtain prevPipes
      where "rows ! i = getNextPipes prevPipes (commits ! i) getStyle"
      unfolding rows_def by blast
    then have "firstPipe (commits ! i) getStyle (commitLane prevPipes (commits ! i)) \<in> set (rows ! i)"
      by (simp add: set_getNextPipes buildPipes_firstPipe)
    then show ?thesis
      by (blast intro: firstPipe_simps)
  qed
  have rendered: "renderPipeSet ext (rows ! i) sel (if i = 0 then None else Some (commits ! (i - 1)))
            = Some (lines ! i)" if "i < length commits" for i
  proof -
    from nth that len have "renderLine ext commits sel i (rows ! i) = Some (lines ! i)"
      by simp
    then show ?thesis
      by (rule renderLine_Some)
  qed
  from nth len have "length lines = length commits"
    by simp
  with graph lines starts rendered
  show "\<exists>lines. RenderCommitGraph ext maxProcs commits sel getStyle = Some lines \<and>
        length lines = length commits \<and>
        (\<forall>i<length commits.
           (\<exists>pipe\<in>set (GetPipeSets (FgDefault ext) commits getStyle ! i).
              kind pipe = STARTS \<and> fromHash pipe = Hash (commits ! i)) \<and>
           renderPipeSet ext (GetPipeSets (FgDefault ext) commits getStyle ! i) sel
             (if i = 0 then None else Some (commits ! (i - 1))) = Some (lines ! i))"
    unfolding rows_def by auto
qed

theorem RenderCommitGraph_one_line_per_commit_witness:
  "1 \<le> (2::nat) \<and>
   (\<exists>lines. RenderCommitGraph traceCells 2 unrelatedMerge ''c'' plainStyle = Some lines \<and>
      length lines = length unrelatedMerge)"
proof -
  have h: "1 \<le> (2::nat)"
    by simp
  from RenderCommitGraph_one_line_per_commit [of traceCells 2 "''c''" plainStyle unrelatedMerge] h
  show ?thesis
    by blast
qed

end
